theory Spec2Isabelle
  imports Complex_Main "HOL-Library.Product_Lexorder"
begin

section \<open>The packed board of \<^verbatim>\<open>game_logic.py\<close>\<close>

text \<open>
  Class \<^verbatim>\<open>Board\<close> holds one attribute, \<^verbatim>\<open>state\<close>, a Python integer read in base 3:
  digit \<open>i\<close> is cell \<open>i\<close> (0 empty, 1 X, 2 O). Python integers are unbounded, so the
  attribute is an \<open>int\<close>; Python's \<^verbatim>\<open>//\<close> and \<^verbatim>\<open>%\<close> by a positive number are
  \<open>div\<close> and \<open>mod\<close> on \<open>int\<close> (both round towards minus infinity).
\<close>

record Board =
  state :: int

definition Board_init :: Board where
  "Board_init = \<lparr>state = 0\<rparr>"

text \<open>\<^verbatim>\<open>divmod(a, b)\<close>; every call of the source has \<open>b = 3\<close>.\<close>

definition divmod :: "int \<Rightarrow> int \<Rightarrow> int \<times> int" where
  "divmod a b = (a div b, a mod b)"

text \<open>
  \<^verbatim>\<open>range(n)\<close> for the two literal bounds of the source, as the lists of Python
  integers they enumerate.
\<close>

definition range3 :: "int list" where
  "range3 = [0, 1, 2]"

definition range9 :: "int list" where
  "range9 = [0, 1, 2, 3, 4, 5, 6, 7, 8]"

text \<open>
  \<^verbatim>\<open>_get_cell\<close> and \<^verbatim>\<open>_set_cell\<close>. The exponent \<^verbatim>\<open>3 ** index\<close> is a power of a
  natural number here: every call site of the source passes \<open>0 \<le> row, col < 3\<close>
  (\<^verbatim>\<open>is_valid_move\<close> tests the range first and \<^verbatim>\<open>and\<close> short-circuits, the others
  pass loop indices), so \<open>index\<close> is never negative.
\<close>

definition get_cell :: "Board \<Rightarrow> int \<Rightarrow> int \<Rightarrow> int" where
  "get_cell b row col =
     (let index = row * 3 + col
      in (state b div (3 ^ nat index)) mod 3)"

definition set_cell :: "Board \<Rightarrow> int \<Rightarrow> int \<Rightarrow> int \<Rightarrow> Board" where
  "set_cell b row col val =
     (let index = row * 3 + col;
          current_value = get_cell b row col;
          b1 = b\<lparr>state := state b - current_value * (3 ^ nat index)\<rparr>
      in b1\<lparr>state := state b1 + val * (3 ^ nat index)\<rparr>)"

definition is_valid_move :: "Board \<Rightarrow> int \<Rightarrow> int \<Rightarrow> bool" where
  "is_valid_move b row col =
     (0 \<le> row \<and> row < 3 \<and> 0 \<le> col \<and> col < 3 \<and> get_cell b row col = 0)"

text \<open>\<^verbatim>\<open>get_valid_moves\<close>: the loop over \<^verbatim>\<open>range(9)\<close> appending to \<^verbatim>\<open>valid_moves\<close>.\<close>

definition get_valid_moves :: "Board \<Rightarrow> int list" where
  "get_valid_moves b =
     fold (\<lambda>i valid_moves.
             case divmod i 3 of (row, col) \<Rightarrow>
               if is_valid_move b row col then valid_moves @ [i] else valid_moves)
          range9 []"

text \<open>
  \<^verbatim>\<open>make_move_cpu\<close> mutates the board and returns a boolean; the model returns the
  boolean together with the board after the call.
\<close>

definition make_move_cpu :: "Board \<Rightarrow> int \<Rightarrow> int \<Rightarrow> bool \<times> Board" where
  "make_move_cpu b player_num move =
     (if 0 \<le> move \<and> move < 9 then
        (case divmod move 3 of (row, col) \<Rightarrow>
           if is_valid_move b row col
           then (True, set_cell b row col player_num)
           else (False, b))
      else (False, b))"

text \<open>
  \<^verbatim>\<open>check_winner\<close>: the list \<^verbatim>\<open>lines\<close> in the order the source appends (row \<open>i\<close> then
  column \<open>i\<close> for \<open>i = 0, 1, 2\<close>, then the main diagonal, then the anti-diagonal), the
  scan that returns at the first decided line, then the full-board test. The result is
  the source's integer: -1 draw, 0 in progress, 1 X won, 2 O won.
\<close>

definition board_lines :: "Board \<Rightarrow> int list list" where
  "board_lines b =
     concat (map (\<lambda>i. [map (\<lambda>j. get_cell b i j) range3,
                        map (\<lambda>j. get_cell b j i) range3]) range3)
     @ [map (\<lambda>i. get_cell b i i) range3]
     @ [map (\<lambda>i. get_cell b i (2 - i)) range3]"

fun scan_lines :: "int list list \<Rightarrow> int option" where
  "scan_lines [] = None"
| "scan_lines (line # rest) =
     (if count_list line (hd line) = 3 \<and> hd line \<noteq> 0 then Some (hd line)
      else scan_lines rest)"

definition check_winner :: "Board \<Rightarrow> int" where
  "check_winner b =
     (case scan_lines (board_lines b) of
        Some w \<Rightarrow> w
      | None \<Rightarrow>
          if list_all (\<lambda>(r, c). get_cell b r c \<noteq> 0) (List.product range3 range3)
          then - 1 else 0)"

section \<open>The symmetry canonicaliser\<close>

text \<open>
  \<^verbatim>\<open>_TRANSFORMS\<close> is a tuple of eight functions on (row, column). A transform id is a
  position in that tuple; the source only ever indexes it with the values of
  \<^verbatim>\<open>range(8)\<close>, so ids are natural numbers and every statement below is about ids
  below 8.
\<close>

definition TRANSFORMS :: "(int \<Rightarrow> int \<Rightarrow> int \<times> int) list" where
  "TRANSFORMS =
     [\<lambda>r c. (r, c),
      \<lambda>r c. (c, 2 - r),
      \<lambda>r c. (2 - r, 2 - c),
      \<lambda>r c. (2 - c, r),
      \<lambda>r c. (r, 2 - c),
      \<lambda>r c. (2 - r, c),
      \<lambda>r c. (c, r),
      \<lambda>r c. (2 - c, 2 - r)]"

definition range8 :: "nat list" where
  "range8 = [0, 1, 2, 3, 4, 5, 6, 7]"

definition transform_index :: "int \<Rightarrow> nat \<Rightarrow> int" where
  "transform_index index transform_id =
     (case divmod index 3 of (row, col) \<Rightarrow>
        case (TRANSFORMS ! transform_id) row col of (new_row, new_col) \<Rightarrow>
          new_row * 3 + new_col)"

definition transform_state :: "int \<Rightarrow> nat \<Rightarrow> int" where
  "transform_state st transform_id =
     fold (\<lambda>i new_state.
             let cell_value = (st div (3 ^ nat i)) mod 3
             in if cell_value \<noteq> 0
                then (let new_index = transform_index i transform_id
                      in new_state + cell_value * (3 ^ nat new_index))
                else new_state)
          range9 0"

text \<open>
  A table key is what \<^verbatim>\<open>canonicalize_state_action\<close> returns: the variable
  \<^verbatim>\<open>best_key\<close>, which starts as Python's \<^verbatim>\<open>None\<close> and holds a pair
  (state, action) from the first iteration on. Pairs are compared as Python compares
  tuples, lexicographically (the order of \<open>Product_Lexorder\<close>).
\<close>

type_synonym key = "(int \<times> int) option"

definition canonicalize_state_action :: "int \<Rightarrow> int \<Rightarrow> key" where
  "canonicalize_state_action st action =
     fold (\<lambda>transform_id best_key.
             let transformed_state = transform_state st transform_id;
                 transformed_action = transform_index action transform_id;
                 k = (transformed_state, transformed_action)
             in case best_key of
                  None \<Rightarrow> Some k
                | Some bk \<Rightarrow> if k < bk then Some k else best_key)
          range8 None"

section \<open>Players, the value table and the random source\<close>

datatype error = IndexError | ValueError | KeyError

text \<open>
  The value table is a dictionary from keys to pairs (sum of rewards, count).
\<close>

type_synonym qtable = "key \<rightharpoonup> int \<times> int"

record Player =
  name :: string
  marker :: int

record CPU = Player +
  q_values :: qtable
  moves :: "key list"

text \<open>
  The module \<^verbatim>\<open>random\<close> is modelled by an explicit source of raw draws (an infinite
  sequence of integers) that each call consumes from: \<^verbatim>\<open>random.random()\<close> returns a multiple of \<open>2\<^sup>-\<^sup>5\<^sup>3\<close> in \<open>[0, 1)\<close>,
  \<^verbatim>\<open>random.choice(xs)\<close> returns some element of \<open>xs\<close> and raises IndexError on an empty
  list. Every sequence of outcomes of the two calls is produced by some source.
  The exploration rate is a float; every finite float is a rational number and the
  two comparisons made with it are exact, so it is a \<open>rat\<close>.
\<close>

type_synonym rng = "nat \<Rightarrow> int"

definition rng_next :: "rng \<Rightarrow> rng" where
  "rng_next g = (\<lambda>n. g (Suc n))"

definition random_random :: "rng \<Rightarrow> rat \<times> rng" where
  "random_random g = (of_int (g 0 mod 2 ^ 53) / 2 ^ 53, rng_next g)"

definition random_choice :: "'a list \<Rightarrow> rng \<Rightarrow> error + ('a \<times> rng)" where
  "random_choice xs g =
     (if xs = [] then Inl IndexError
      else Inr (xs ! nat (g 0 mod int (length xs)), rng_next g))"

text \<open>
  \<^verbatim>\<open>max(xs, key=f)\<close> returns the first element whose key is maximal and \<^verbatim>\<open>min(xs)\<close> the
  least element; both raise ValueError on an empty list.
\<close>

fun py_max_key :: "('a \<Rightarrow> 'k::linorder) \<Rightarrow> 'a list \<Rightarrow> error + 'a" where
  "py_max_key f [] = Inl ValueError"
| "py_max_key f (x # xs) = Inr (fold (\<lambda>y best. if f best < f y then y else best) xs x)"

fun py_min :: "'a::linorder list \<Rightarrow> error + 'a" where
  "py_min [] = Inl ValueError"
| "py_min (x # xs) = Inr (fold (\<lambda>y best. if y < best then y else best) xs x)"

section \<open>Move selection\<close>

text \<open>
  The \<^verbatim>\<open>else\<close> branch of \<^verbatim>\<open>get_and_save_move\<close> (exploitation). \<^verbatim>\<open>total / count\<close> is
  Python's true division of two integers, a float. The branch only compares its
  results with each other and with 0, so the model takes the quotient as a parameter
  \<open>true_div\<close> into any linear order with a zero: what is proved holds for the rounded
  quotient of the floats as for the exact one of the rationals.
\<close>

definition q_avgs_of ::
  "(int \<Rightarrow> int \<Rightarrow> 'v::{linorder,zero}) \<Rightarrow> Board \<Rightarrow> qtable \<Rightarrow> int list \<Rightarrow> ('v \<times> int \<times> int) list" where
  "q_avgs_of true_div board q valid =
     map (\<lambda>m. let k = canonicalize_state_action (state board) m;
                   (total, count) = (case q k of None \<Rightarrow> (0, 0) | Some v \<Rightarrow> v);
                   avg = (if count > 0 then true_div total count else 0)
               in (avg, count, m)) valid"

definition exploit ::
  "(int \<Rightarrow> int \<Rightarrow> 'v::{linorder,zero}) \<Rightarrow> Board \<Rightarrow> qtable \<Rightarrow> int list \<Rightarrow> int \<Rightarrow> rat \<Rightarrow> rng
     \<Rightarrow> error + (int \<times> rng)" where
  "exploit true_div board q valid gen epsilon g =
     (let q_avgs = q_avgs_of true_div board q valid
      in case py_max_key (\<lambda>x. fst x) q_avgs of
           Inl e \<Rightarrow> Inl e
         | Inr top_avg \<Rightarrow>
            (let max_avg = fst top_avg;
                 best_moves = map (\<lambda>(avg, count, m). (count, m))
                                (filter (\<lambda>(avg, count, m). avg = max_avg) q_avgs)
             in case py_max_key (\<lambda>x. fst x) best_moves of
                  Inl e \<Rightarrow> Inl e
                | Inr top_count \<Rightarrow>
                   (let max_count = fst top_count;
                        best_moves2 = map (\<lambda>(count, m). m)
                                        (filter (\<lambda>(count, m). count = max_count) best_moves)
                    in if gen = 3 \<and> epsilon = 0
                       then (case py_min best_moves2 of
                               Inl e \<Rightarrow> Inl e
                             | Inr m \<Rightarrow> Inr (m, g))
                       else random_choice best_moves2 g)))"

text \<open>
  \<^verbatim>\<open>get_and_save_move\<close>. The test
  \<^verbatim>\<open>gen == 1 or q_values is None or random.random() < epsilon\<close> short-circuits:
  \<^verbatim>\<open>random.random()\<close> is called only with \<open>gen \<noteq> 1\<close> and a table. The call appends the
  key of the chosen move to \<^verbatim>\<open>self.moves\<close>; the model returns the move, the player
  object after the call and the random source after the call.
\<close>

definition get_and_save_move ::
  "(int \<Rightarrow> int \<Rightarrow> 'v::{linorder,zero}) \<Rightarrow> CPU \<Rightarrow> Board \<Rightarrow> int \<Rightarrow> qtable option \<Rightarrow> rat \<Rightarrow> rng
     \<Rightarrow> error + (int \<times> CPU \<times> rng)" where
  "get_and_save_move true_div self board gen q_vals epsilon g =
     (let valid = get_valid_moves board;
          chosen =
            (case (if gen = 1 then None else q_vals) of
               None \<Rightarrow> random_choice valid g
             | Some q \<Rightarrow>
                 (case random_random g of (u, g1) \<Rightarrow>
                    if u < epsilon then random_choice valid g1
                    else exploit true_div board q valid gen epsilon g1))
      in case chosen of
           Inl e \<Rightarrow> Inl e
         | Inr (move, g2) \<Rightarrow>
             Inr (move,
                  self\<lparr>moves := moves self @ [canonicalize_state_action (state board) move]\<rparr>,
                  g2))"

section \<open>Self-play\<close>

text \<open>
  \<^verbatim>\<open>simulate_game\<close> receives two references to player objects, the shared table and
  the statistics dictionary, and mutates all of them. The player objects live in a
  store indexed by address, so that \<^verbatim>\<open>cpu1\<close> and \<^verbatim>\<open>cpu2\<close> may or may not be the same
  object; \<^verbatim>\<open>current_player\<close> and \<^verbatim>\<open>other_player\<close> are addresses. The statistics are
  a dictionary from strings to integers, and \<^verbatim>\<open>stats[k] += 1\<close> raises KeyError on a
  missing key.
\<close>

type_synonym heap = "nat \<Rightarrow> CPU"

type_synonym stats = "string \<rightharpoonup> int"

definition stats_incr :: "stats \<Rightarrow> string \<Rightarrow> error + stats" where
  "stats_incr st k = (case st k of None \<Rightarrow> Inl KeyError | Some v \<Rightarrow> Inr (st(k \<mapsto> v + 1)))"

text \<open>One of the two loops \<^verbatim>\<open>for key in cpu.moves\<close> of the learning step.\<close>

definition credit :: "int \<Rightarrow> key list \<Rightarrow> qtable \<Rightarrow> qtable" where
  "credit reward ks q =
     fold (\<lambda>k q. case (case q k of None \<Rightarrow> (0, 0) | Some v \<Rightarrow> v) of
                    (total_reward, times') \<Rightarrow> q(k \<mapsto> (total_reward + reward, times' + 1)))
          ks q"

text \<open>
  The function returns nothing; what a call leaves behind is the store, the table and
  the statistics. The model returns them, with the local board, the local \<^verbatim>\<open>result\<close>
  and the random source at the moment of \<^verbatim>\<open>break\<close>, so that properties of the game
  just played can be stated.
\<close>

record outcome =
  out_heap :: heap
  out_q_values :: qtable
  out_stats :: stats
  out_board :: Board
  out_result :: int
  out_rng :: rng

text \<open>The body of \<^verbatim>\<open>if result != 0:\<close>, up to \<^verbatim>\<open>break\<close>.\<close>

definition terminal ::
  "nat \<Rightarrow> nat \<Rightarrow> bool \<Rightarrow> heap \<Rightarrow> qtable \<Rightarrow> stats \<Rightarrow> Board \<Rightarrow> int \<Rightarrow> rng \<Rightarrow> error + outcome" where
  "terminal cpu1 cpu2 learn h q st board result g =
     (let (reward1, reward2, counter) =
            (if result = - 1 then (0, 0, ''draws'')
             else if result = marker (h cpu1) then (1, - 1, ''win_loss'')
             else (- 1, 1, ''win_loss''))
      in case stats_incr st counter of
           Inl e \<Rightarrow> Inl e
         | Inr st' \<Rightarrow>
             Inr \<lparr>out_heap = h,
                  out_q_values =
                    (if learn
                     then credit reward2 (moves (h cpu2)) (credit reward1 (moves (h cpu1)) q)
                     else q),
                  out_stats = st', out_board = board, out_result = result, out_rng = g\<rparr>)"

text \<open>
  The loop \<^verbatim>\<open>while True\<close>. Nothing in its text bounds the number of iterations (the
  value returned by \<^verbatim>\<open>make_move_cpu\<close> is ignored), so it is a partial function: \<open>None\<close>
  is a run that never leaves the loop, \<open>Some (Inl e)\<close> a run that raises \<open>e\<close>, and
  \<open>Some (Inr out)\<close> a run that reaches \<^verbatim>\<open>break\<close>.
\<close>

partial_function (option) game_loop ::
  "(int \<Rightarrow> int \<Rightarrow> 'v::{linorder,zero}) \<Rightarrow> nat \<Rightarrow> nat \<Rightarrow> qtable \<Rightarrow> stats \<Rightarrow> int \<Rightarrow> rat \<Rightarrow> bool
     \<Rightarrow> heap \<Rightarrow> Board \<Rightarrow> nat \<Rightarrow> nat \<Rightarrow> rng \<Rightarrow> (error + outcome) option" where
  "game_loop true_div cpu1 cpu2 q st gen epsilon learn h board current_player other_player g =
     (case get_and_save_move true_div (h current_player) board gen (Some q) epsilon g of
        Inl e \<Rightarrow> Some (Inl e)
      | Inr (move, self', g') \<Rightarrow>
          (let h' = h(current_player := self');
               board' = snd (make_move_cpu board (marker (h' current_player)) move);
               result = check_winner board'
           in if result \<noteq> 0
              then Some (terminal cpu1 cpu2 learn h' q st board' result g')
              else game_loop true_div cpu1 cpu2 q st gen epsilon learn h' board'
                     other_player current_player g'))"

declare game_loop.simps [code]

definition simulate_game ::
  "(int \<Rightarrow> int \<Rightarrow> 'v::{linorder,zero}) \<Rightarrow> heap \<Rightarrow> nat \<Rightarrow> nat \<Rightarrow> qtable \<Rightarrow> stats \<Rightarrow> int \<Rightarrow> rat \<Rightarrow> bool
     \<Rightarrow> rng \<Rightarrow> (error + outcome) option" where
  "simulate_game true_div h cpu1 cpu2 q st gen epsilon learn g =
     (let board = Board_init;
          h1 = h(cpu1 := (h cpu1)\<lparr>moves := []\<rparr>);
          h2 = h1(cpu2 := (h1 cpu2)\<lparr>moves := []\<rparr>)
      in game_loop true_div cpu1 cpu2 q st gen epsilon learn h2 board cpu1 cpu2 g)"

section \<open>Notions used to state the properties\<close>

text \<open>Digit \<open>i\<close> of a packed state; \<open>get_cell b r c\<close> is digit \<open>3r + c\<close>.\<close>

definition digit :: "int \<Rightarrow> nat \<Rightarrow> int" where
  "digit s i = (s div 3 ^ i) mod 3"

text \<open>
  The eight winning lines as the specification lists them (three rows, three columns,
  two diagonals), a line held by a marker, and a board with no empty cell.
\<close>

definition win_lines :: "(int \<times> int) list list" where
  "win_lines =
     [[(0, 0), (0, 1), (0, 2)], [(1, 0), (1, 1), (1, 2)], [(2, 0), (2, 1), (2, 2)],
      [(0, 0), (1, 0), (2, 0)], [(0, 1), (1, 1), (2, 1)], [(0, 2), (1, 2), (2, 2)],
      [(0, 0), (1, 1), (2, 2)], [(0, 2), (1, 1), (2, 0)]]"

definition line_held :: "Board \<Rightarrow> int \<Rightarrow> bool" where
  "line_held b p = list_ex (list_all (\<lambda>(r, c). get_cell b r c = p)) win_lines"

definition board_full :: "Board \<Rightarrow> bool" where
  "board_full b = list_all (\<lambda>(r, c). get_cell b r c \<noteq> 0) (List.product range3 range3)"

text \<open>
  For the symmetry proofs: a list of base-3 digits packed into a state; for each
  transform the cell that it moves onto each position; the composition table of the
  eight transforms (\<open>compose t1 t2\<close> is \<open>t1\<close> followed by \<open>t2\<close>); the eight candidate
  keys of a pair; and the number of non-empty cells among the nine of a state.
\<close>

fun pack :: "int list \<Rightarrow> int" where
  "pack [] = 0"
| "pack (d # ds) = d + 3 * pack ds"

definition src_cells :: "nat list list" where
  "src_cells =
     [[0, 1, 2, 3, 4, 5, 6, 7, 8], [6, 3, 0, 7, 4, 1, 8, 5, 2], [8, 7, 6, 5, 4, 3, 2, 1, 0],
      [2, 5, 8, 1, 4, 7, 0, 3, 6], [2, 1, 0, 5, 4, 3, 8, 7, 6], [6, 7, 8, 3, 4, 5, 0, 1, 2],
      [0, 3, 6, 1, 4, 7, 2, 5, 8], [8, 5, 2, 7, 4, 1, 6, 3, 0]]"

definition compose_tbl :: "nat list list" where
  "compose_tbl =
     [[0, 1, 2, 3, 4, 5, 6, 7], [1, 2, 3, 0, 6, 7, 5, 4], [2, 3, 0, 1, 5, 4, 7, 6],
      [3, 0, 1, 2, 7, 6, 4, 5], [4, 7, 5, 6, 0, 2, 3, 1], [5, 6, 4, 7, 2, 0, 1, 3],
      [6, 4, 7, 5, 1, 3, 0, 2], [7, 5, 6, 4, 3, 1, 2, 0]]"

definition compose :: "nat \<Rightarrow> nat \<Rightarrow> nat" where
  "compose t1 t2 = compose_tbl ! t1 ! t2"

definition images :: "int \<Rightarrow> int \<Rightarrow> (int \<times> int) list" where
  "images s a = map (\<lambda>t. (transform_state s t, transform_index a t)) range8"

definition cells9 :: "nat list" where
  "cells9 = [0, 1, 2, 3, 4, 5, 6, 7, 8]"

definition filled :: "int \<Rightarrow> nat" where
  "filled s = length (filter (\<lambda>i. digit s i \<noteq> 0) cells9)"

text \<open>
  For the selection rule: the table entry read for a move (\<open>(0, 0)\<close> when the key is
  absent), its average reward and its count.
\<close>

definition table_entry :: "Board \<Rightarrow> qtable \<Rightarrow> int \<Rightarrow> int \<times> int" where
  "table_entry board q m =
     (case q (canonicalize_state_action (state board) m) of None \<Rightarrow> (0, 0) | Some v \<Rightarrow> v)"

definition avg_reward ::
  "(int \<Rightarrow> int \<Rightarrow> 'v::{linorder,zero}) \<Rightarrow> Board \<Rightarrow> qtable \<Rightarrow> int \<Rightarrow> 'v" where
  "avg_reward true_div board q m =
     (case table_entry board q m of (tot, cnt) \<Rightarrow>
        if cnt > 0 then true_div tot cnt else 0)"

definition seen_count :: "Board \<Rightarrow> qtable \<Rightarrow> int \<Rightarrow> int" where
  "seen_count board q m = snd (table_entry board q m)"

text \<open>
  For the game: the number of non-empty cells of the state of a key; the invariant of
  the loop (with two distinct player objects, the recorded keys have pairwise
  different numbers of non-empty cells, all below that of the board, and there are
  as many keys as non-empty cells); the table entry of a key, \<open>(0, 0)\<close> when absent;
  the terminal reward of a marker as the specification words it; the invariant of
  the value table; statistics that hold both counters; players whose markers are 1
  or 2.
\<close>

definition key_filled :: "key \<Rightarrow> nat" where
  "key_filled k = (case k of None \<Rightarrow> 0 | Some (s, a) \<Rightarrow> filled s)"

definition game_inv :: "nat \<Rightarrow> nat \<Rightarrow> heap \<Rightarrow> Board \<Rightarrow> bool" where
  "game_inv cpu1 cpu2 h board =
     (cpu1 \<noteq> cpu2 \<longrightarrow>
        (\<forall>k\<in>set (moves (h cpu1) @ moves (h cpu2)). key_filled k < filled (state board))
        \<and> distinct (map key_filled (moves (h cpu1) @ moves (h cpu2)))
        \<and> length (moves (h cpu1) @ moves (h cpu2)) = filled (state board))"

definition entry :: "qtable \<Rightarrow> key \<Rightarrow> int \<times> int" where
  "entry q k = (case q k of None \<Rightarrow> (0, 0) | Some v \<Rightarrow> v)"

definition reward_of :: "int \<Rightarrow> int \<Rightarrow> int" where
  "reward_of mk result = (if result = - 1 then 0 else if result = mk then 1 else - 1)"

definition table_inv :: "qtable \<Rightarrow> bool" where
  "table_inv q = (\<forall>k s c. q k = Some (s, c) \<longrightarrow> 0 \<le> c \<and> - c \<le> s \<and> s \<le> c)"

definition stats_ok :: "stats \<Rightarrow> bool" where
  "stats_ok st = (st ''draws'' \<noteq> None \<and> st ''win_loss'' \<noteq> None)"

definition markers_ok :: "heap \<Rightarrow> nat \<Rightarrow> nat \<Rightarrow> bool" where
  "markers_ok h cpu1 cpu2 =
     ((marker (h cpu1) = 1 \<or> marker (h cpu1) = 2) \<and> (marker (h cpu2) = 1 \<or> marker (h cpu2) = 2))"

text \<open>Concrete inputs for the instances below.\<close>

definition demo_heap :: heap where
  "demo_heap = (\<lambda>a. \<lparr>name = ''CPU'', marker = (if a = 0 then 1 else 2),
                       q_values = Map.empty, moves = []\<rparr>)"

definition demo_stats :: stats where
  "demo_stats = [''win_loss'' \<mapsto> 0, ''draws'' \<mapsto> 0]"

definition rat_div :: "int \<Rightarrow> int \<Rightarrow> rat" where
  "rat_div a b = of_int a / of_int b"

section \<open>Base-3 digits\<close>

lemma digit_range: "0 \<le> digit s i \<and> digit s i < 3"
  by (simp add: digit_def)

lemma digit_cases: "digit s i = 0 \<or> digit s i = 1 \<or> digit s i = 2"
  using digit_range [of s i] by arith

lemma get_cell_digit: "get_cell b r c = digit (state b) (nat (r * 3 + c))"
  by (simp add: get_cell_def digit_def)

lemma get_cell_eval: "get_cell \<lparr>state = s\<rparr> r c = (s div 3 ^ nat (r * 3 + c)) mod 3"
  by (simp add: get_cell_def)

lemma mod3_shift: "x mod 3 = 0 \<Longrightarrow> 0 \<le> p \<Longrightarrow> p < 3 \<Longrightarrow> (x + p) mod 3 = (p::int)"
  by presburger

lemma div3_shift: "x mod 3 = 0 \<Longrightarrow> 0 \<le> p \<Longrightarrow> p < 3 \<Longrightarrow> (x + p) div 3 = (x::int) div 3"
  by presburger

lemma digit_add_same:
  assumes "digit s i = 0" "0 \<le> p" "p < 3"
  shows "digit (s + p * 3 ^ i) i = p"
proof -
  have "(s + p * 3 ^ i) div 3 ^ i = s div 3 ^ i + p" by simp
  moreover have "(s div 3 ^ i) mod 3 = 0" using assms(1) by (simp add: digit_def)
  ultimately show ?thesis
    using assms(2,3) by (simp only: digit_def mod3_shift)
qed

lemma digit_add_below:
  assumes "j < i"
  shows "digit (s + p * 3 ^ i) j = digit s j"
proof -
  obtain d where i: "i = j + Suc d" using assms less_iff_Suc_add by auto
  have "s + p * 3 ^ i = s + (p * 3 ^ d * 3) * 3 ^ j" by (simp add: i power_add)
  moreover have "(s + (p * 3 ^ d * 3) * 3 ^ j) div 3 ^ j = p * 3 ^ d * 3 + s div 3 ^ j"
    by (rule div_mult_self1) simp
  ultimately have "(s + p * 3 ^ i) div 3 ^ j = p * 3 ^ d * 3 + s div 3 ^ j"
    by (simp only:)
  then show ?thesis by (simp add: digit_def)
qed

lemma digit_add_above:
  assumes "i < j" "digit s i = 0" "0 \<le> p" "p < 3"
  shows "digit (s + p * 3 ^ i) j = digit s j"
proof -
  obtain d where j: "j = i + Suc d" using assms(1) less_iff_Suc_add by auto
  define x where "x = s div 3 ^ i"
  have x0: "x mod 3 = 0" using assms(2) by (simp add: digit_def x_def)
  have pw: "(3::int) ^ j = 3 ^ i * (3 * 3 ^ d)" by (simp add: j power_add)
  have c: "(s + p * 3 ^ i) div 3 ^ i = x + p" by (simp add: x_def)
  have a: "(s + p * 3 ^ i) div 3 ^ j = ((x + p) div 3) div 3 ^ d"
    unfolding pw by (simp only: zdiv_zmult2_eq c zero_le_numeral zero_le_power mult_nonneg_nonneg)
  have b: "s div 3 ^ j = (x div 3) div 3 ^ d"
    unfolding pw by (simp add: zdiv_zmult2_eq x_def)
  show ?thesis unfolding digit_def a b using div3_shift [OF x0 assms(3,4)] by simp
qed

lemma digit_add:
  assumes "digit s i = 0" "0 \<le> p" "p < 3"
  shows "digit (s + p * 3 ^ i) j = (if j = i then p else digit s j)"
proof -
  consider "j < i" | "j = i" | "i < j" by arith
  then show ?thesis
  proof cases
    case 1 then show ?thesis by (simp add: digit_add_below)
  next
    case 2 then show ?thesis using assms by (simp add: digit_add_same)
  next
    case 3 then show ?thesis using assms by (simp add: digit_add_above)
  qed
qed

section \<open>Legal moves\<close>

lemma fold_append_filter:
  "fold (\<lambda>i acc. if P i then acc @ [i] else acc) xs acc = acc @ filter P xs"
  by (induction xs arbitrary: acc) simp_all

lemma get_valid_moves_filter:
  "get_valid_moves b = filter (\<lambda>i. is_valid_move b (i div 3) (i mod 3)) range9"
  unfolding get_valid_moves_def divmod_def prod.case
  by (simp only: fold_append_filter append_Nil)


text \<open>
  C5. For every board, \<open>get_valid_moves\<close> returns exactly the flat indices
  (index = row * 3 + col) of the empty cells, in strictly increasing order.
\<close>

theorem get_valid_moves_exact:
  "set (get_valid_moves b) = {i. 0 \<le> i \<and> i < 9 \<and> get_cell b (i div 3) (i mod 3) = 0}
   \<and> sorted_wrt (<) (get_valid_moves b)"
proof
  have r: "set range9 = {i. 0 \<le> i \<and> i < 9}" by (auto simp: range9_def)
  show "set (get_valid_moves b) = {i. 0 \<le> i \<and> i < 9 \<and> get_cell b (i div 3) (i mod 3) = 0}"
    unfolding get_valid_moves_filter set_filter r is_valid_move_def by auto
  have "sorted_wrt (<) range9" by (simp add: range9_def)
  then show "sorted_wrt (<) (get_valid_moves b)"
    unfolding get_valid_moves_filter by (rule sorted_wrt_filter)
qed

section \<open>Applying a move\<close>

lemma make_move_cpu_illegal:
  "\<not> (0 \<le> move \<and> move < 9 \<and> get_cell b (move div 3) (move mod 3) = 0)
   \<Longrightarrow> make_move_cpu b p move = (False, b)"
  by (auto simp: make_move_cpu_def divmod_def is_valid_move_def)

lemma divmod_index: "(m div 3) * 3 + m mod 3 = (m::int)"
  by simp

lemma make_move_cpu_legal:
  assumes "0 \<le> move" "move < 9" "get_cell b (move div 3) (move mod 3) = 0"
  shows "make_move_cpu b p move = (True, b\<lparr>state := state b + p * 3 ^ nat move\<rparr>)"
proof -
  have v: "is_valid_move b (move div 3) (move mod 3)"
    using assms by (simp add: is_valid_move_def) presburger
  have "set_cell b (move div 3) (move mod 3) p = b\<lparr>state := state b + p * 3 ^ nat move\<rparr>"
    using assms(3) by (simp add: set_cell_def Let_def divmod_index)
  with v assms(1,2) show ?thesis by (simp add: make_move_cpu_def divmod_def)
qed

lemma empty_cell_digit:
  "0 \<le> move \<Longrightarrow> get_cell b (move div 3) (move mod 3) = digit (state b) (nat move)"
  by (simp add: get_cell_digit divmod_index)


text \<open>
  C6. For every board, marker (1 or 2) and integer move index: an illegal move (out
  of 0..8, or onto a non-empty cell) returns False and leaves the board as it was;
  a legal move returns True and sets exactly that cell to the marker, every other
  digit of the state being unchanged. The function is total: no input raises.
\<close>

theorem make_move_cpu_contract:
  "(\<not> (0 \<le> move \<and> move < 9 \<and> get_cell b (move div 3) (move mod 3) = 0)
      \<longrightarrow> make_move_cpu b p move = (False, b))
   \<and> (0 \<le> move \<and> move < 9 \<and> get_cell b (move div 3) (move mod 3) = 0 \<and> (p = 1 \<or> p = 2)
      \<longrightarrow> fst (make_move_cpu b p move) = True
          \<and> (\<forall>j. digit (state (snd (make_move_cpu b p move))) j
                   = (if j = nat move then p else digit (state b) j))
          \<and> (\<forall>r c. 0 \<le> r \<and> r < 3 \<and> 0 \<le> c \<and> c < 3
                \<longrightarrow> get_cell (snd (make_move_cpu b p move)) r c
                    = (if r * 3 + c = move then p else get_cell b r c)))"
proof (intro conjI impI)
  assume "\<not> (0 \<le> move \<and> move < 9 \<and> get_cell b (move div 3) (move mod 3) = 0)"
  then show "make_move_cpu b p move = (False, b)" by (rule make_move_cpu_illegal)
next
  assume h: "0 \<le> move \<and> move < 9 \<and> get_cell b (move div 3) (move mod 3) = 0 \<and> (p = 1 \<or> p = 2)"
  then have mm: "make_move_cpu b p move = (True, b\<lparr>state := state b + p * 3 ^ nat move\<rparr>)"
    by (simp add: make_move_cpu_legal)
  from h have d0: "digit (state b) (nat move) = 0" using empty_cell_digit [of move b] by simp
  from h have p: "0 \<le> p" "p < 3" by auto
  show "fst (make_move_cpu b p move) = True" by (simp add: mm)
  show dg: "\<forall>j. digit (state (snd (make_move_cpu b p move))) j
              = (if j = nat move then p else digit (state b) j)"
    by (simp add: mm digit_add [OF d0 p])
  show "\<forall>r c. 0 \<le> r \<and> r < 3 \<and> 0 \<le> c \<and> c < 3
          \<longrightarrow> get_cell (snd (make_move_cpu b p move)) r c
              = (if r * 3 + c = move then p else get_cell b r c)"
  proof (intro allI impI)
    fix r c :: int assume rc: "0 \<le> r \<and> r < 3 \<and> 0 \<le> c \<and> c < 3"
    then have "nat (r * 3 + c) = nat move \<longleftrightarrow> r * 3 + c = move" using h by auto
    then show "get_cell (snd (make_move_cpu b p move)) r c
              = (if r * 3 + c = move then p else get_cell b r c)"
      using dg by (simp add: get_cell_digit)
  qed
qed

theorem make_move_cpu_contract_witness:
  "make_move_cpu \<lparr>state = 13\<rparr> 2 1 = (False, \<lparr>state = 13\<rparr>)
   \<and> make_move_cpu \<lparr>state = 13\<rparr> 2 9 = (False, \<lparr>state = 13\<rparr>)
   \<and> fst (make_move_cpu \<lparr>state = 13\<rparr> 2 4) = True
   \<and> get_cell (snd (make_move_cpu \<lparr>state = 13\<rparr> 2 4)) 1 1 = 2
   \<and> get_cell (snd (make_move_cpu \<lparr>state = 13\<rparr> 2 4)) 0 0 = 1"
  using make_move_cpu_contract [of 1 "\<lparr>state = 13\<rparr>" 2]
        make_move_cpu_contract [of 9 "\<lparr>state = 13\<rparr>" 2]
        make_move_cpu_contract [of 4 "\<lparr>state = 13\<rparr>" 2]
  by (simp add: get_cell_eval)

section \<open>The result of a position\<close>

lemma decided3:
  "(count_list [x, y, z] (hd [x, y, z]) = 3 \<and> hd [x, y, z] = p) \<longleftrightarrow> (x = p \<and> y = p \<and> z = p)"
  by auto

lemma scan_lines_Some:
  "scan_lines ls = Some p \<Longrightarrow> p \<noteq> 0 \<and> (\<exists>l\<in>set ls. count_list l (hd l) = 3 \<and> hd l = p)"
  by (induction ls) (auto split: if_splits)

lemma scan_lines_None:
  "scan_lines ls = None \<longleftrightarrow> (\<forall>l\<in>set ls. \<not> (count_list l (hd l) = 3 \<and> hd l \<noteq> 0))"
  by (induction ls) auto

lemma anti_diag_index: "(2::int) - 0 = 2" "(2::int) - 1 = 1" "(2::int) - 2 = 0"
  by simp_all

lemma board_lines_decided:
  "(\<exists>l\<in>set (board_lines b). count_list l (hd l) = 3 \<and> hd l = p) \<longleftrightarrow> line_held b p"
  unfolding board_lines_def range3_def line_held_def win_lines_def
  apply (simp only: list.map concat.simps append.simps list.set bex_simps ball_simps
       insert_iff empty_iff simp_thms decided3 anti_diag_index list_ex_iff list_all_iff prod.case)
  apply (simp only: disj_ac)
  done

lemma scan_lines_sound:
  "scan_lines (board_lines b) = Some p \<Longrightarrow> p \<noteq> 0 \<and> line_held b p"
  using scan_lines_Some [of "board_lines b" p] board_lines_decided [of b p] by blast

lemma scan_lines_undecided:
  "scan_lines (board_lines b) = None \<longleftrightarrow> (\<forall>p. p \<noteq> 0 \<longrightarrow> \<not> line_held b p)"
proof
  assume n: "scan_lines (board_lines b) = None"
  show "\<forall>p. p \<noteq> 0 \<longrightarrow> \<not> line_held b p"
  proof (intro allI impI notI)
    fix p :: int assume "p \<noteq> 0" "line_held b p"
    then obtain l where "l \<in> set (board_lines b)" "count_list l (hd l) = 3" "hd l = p"
      using board_lines_decided [of b p] by auto
    with \<open>p \<noteq> 0\<close> n show False unfolding scan_lines_None by auto
  qed
next
  assume h: "\<forall>p. p \<noteq> 0 \<longrightarrow> \<not> line_held b p"
  show "scan_lines (board_lines b) = None"
  proof (cases "scan_lines (board_lines b)")
    case None then show ?thesis .
  next
    case (Some p)
    from scan_lines_sound [OF Some] h show ?thesis by auto
  qed
qed

lemma check_winner_cases:
  "check_winner b = (case scan_lines (board_lines b) of Some w \<Rightarrow> w
                     | None \<Rightarrow> if board_full b then - 1 else 0)"
  by (simp add: check_winner_def board_full_def)

lemma line_held_marker: "line_held b p \<Longrightarrow> p = 0 \<or> p = 1 \<or> p = 2"
  unfolding line_held_def win_lines_def get_cell_digit
  using digit_cases [of "state b"] by auto

lemma check_winner_win:
  "check_winner b = 1 \<or> check_winner b = 2 \<Longrightarrow> line_held b (check_winner b)"
  unfolding check_winner_cases
  by (cases "scan_lines (board_lines b)") (auto dest: scan_lines_sound split: if_splits)

lemma check_winner_only:
  assumes "line_held b p" "p \<noteq> 0" "\<forall>q. q \<noteq> 0 \<and> q \<noteq> p \<longrightarrow> \<not> line_held b q"
  shows "check_winner b = p"
proof (cases "scan_lines (board_lines b)")
  case None
  with assms(1,2) show ?thesis using scan_lines_undecided [of b] by auto
next
  case (Some w)
  from scan_lines_sound [OF Some] assms(3) have "w = p" by auto
  with Some show ?thesis by (simp add: check_winner_cases)
qed

lemma check_winner_draw:
  "check_winner b = - 1 \<longleftrightarrow> \<not> line_held b 1 \<and> \<not> line_held b 2 \<and> board_full b"
proof (cases "scan_lines (board_lines b)")
  case None
  then have "\<not> line_held b 1 \<and> \<not> line_held b 2" using scan_lines_undecided [of b] by auto
  with None show ?thesis by (simp add: check_winner_cases)
next
  case (Some w)
  from scan_lines_sound [OF Some] have w: "w \<noteq> 0" "line_held b w" by auto
  with line_held_marker [of b w] have "w = 1 \<or> w = 2" by auto
  with w Some show ?thesis by (auto simp: check_winner_cases)
qed

lemma check_winner_in_progress:
  "check_winner b = 0 \<longleftrightarrow> \<not> line_held b 1 \<and> \<not> line_held b 2 \<and> \<not> board_full b"
proof (cases "scan_lines (board_lines b)")
  case None
  then have "\<not> line_held b 1 \<and> \<not> line_held b 2" using scan_lines_undecided [of b] by auto
  with None show ?thesis by (simp add: check_winner_cases)
next
  case (Some w)
  from scan_lines_sound [OF Some] have w: "w \<noteq> 0" "line_held b w" by auto
  with line_held_marker [of b w] have "w = 1 \<or> w = 2" by auto
  with w Some show ?thesis by (auto simp: check_winner_cases)
qed




text \<open>
  C4, as stated, fails on a board where both markers hold a line: with row 0 all X
  and row 1 all O (state 715) the scan stops at row 0 and returns 1, although a line
  is all O.
\<close>

theorem check_winner_both_lines_counterexample:
  "get_cell \<lparr>state = 715\<rparr> 1 0 = 2 \<and> get_cell \<lparr>state = 715\<rparr> 1 1 = 2
   \<and> get_cell \<lparr>state = 715\<rparr> 1 2 = 2 \<and> check_winner \<lparr>state = 715\<rparr> = 1"
  by (simp add: check_winner_def board_lines_def range3_def get_cell_eval)

text \<open>
  C4, amended. For every board: a returned win for marker \<open>p\<close> means that some line is
  all \<open>p\<close>; if some line is all \<open>p\<close> and no line is all the other marker, the result
  is the win for \<open>p\<close>; the result is DRAW (-1) iff no line is held and no cell is
  empty, and IN_PROGRESS (0) iff no line is held and some cell is empty.
\<close>

theorem check_winner_result:
  "(check_winner b = 1 \<or> check_winner b = 2 \<longrightarrow> line_held b (check_winner b))
   \<and> (line_held b 1 \<and> \<not> line_held b 2 \<longrightarrow> check_winner b = 1)
   \<and> (line_held b 2 \<and> \<not> line_held b 1 \<longrightarrow> check_winner b = 2)
   \<and> (check_winner b = - 1 \<longleftrightarrow> \<not> line_held b 1 \<and> \<not> line_held b 2 \<and> board_full b)
   \<and> (check_winner b = 0 \<longleftrightarrow> \<not> line_held b 1 \<and> \<not> line_held b 2 \<and> \<not> board_full b)"
proof (intro conjI impI)
  assume "check_winner b = 1 \<or> check_winner b = 2"
  then show "line_held b (check_winner b)" by (rule check_winner_win)
next
  assume h: "line_held b 1 \<and> \<not> line_held b 2"
  have "\<forall>q. q \<noteq> 0 \<and> q \<noteq> 1 \<longrightarrow> \<not> line_held b q"
    using h line_held_marker [of b] by blast
  with h show "check_winner b = 1" using check_winner_only [of b 1] by simp
next
  assume h: "line_held b 2 \<and> \<not> line_held b 1"
  have "\<forall>q. q \<noteq> 0 \<and> q \<noteq> 2 \<longrightarrow> \<not> line_held b q"
    using h line_held_marker [of b] by blast
  with h show "check_winner b = 2" using check_winner_only [of b 2] by simp
next
  show "check_winner b = - 1 \<longleftrightarrow> \<not> line_held b 1 \<and> \<not> line_held b 2 \<and> board_full b"
    by (rule check_winner_draw)
next
  show "check_winner b = 0 \<longleftrightarrow> \<not> line_held b 1 \<and> \<not> line_held b 2 \<and> \<not> board_full b"
    by (rule check_winner_in_progress)
qed

text \<open>
  The three concrete positions of the claim, obtained from the theorem: row 0 all X
  and nothing else (state 13) is a win for X; the full board X O X / X O O / O X X
  (state 10897) is a draw; the empty board is in progress.
\<close>

theorem check_winner_result_witness:
  "check_winner \<lparr>state = 13\<rparr> = 1 \<and> line_held \<lparr>state = 13\<rparr> 1
   \<and> check_winner \<lparr>state = 10897\<rparr> = - 1 \<and> check_winner \<lparr>state = 0\<rparr> = 0"
proof -
  have a: "line_held \<lparr>state = 13\<rparr> 1 \<and> \<not> line_held \<lparr>state = 13\<rparr> 2"
    by (simp add: line_held_def win_lines_def get_cell_eval)
  have b: "\<not> line_held \<lparr>state = 10897\<rparr> 1 \<and> \<not> line_held \<lparr>state = 10897\<rparr> 2
           \<and> board_full \<lparr>state = 10897\<rparr>"
    by (simp add: line_held_def win_lines_def board_full_def range3_def get_cell_eval)
  have c: "\<not> line_held \<lparr>state = 0\<rparr> 1 \<and> \<not> line_held \<lparr>state = 0\<rparr> 2 \<and> \<not> board_full \<lparr>state = 0\<rparr>"
    by (simp add: line_held_def win_lines_def board_full_def range3_def get_cell_eval)
  show ?thesis
    using a b c check_winner_result [of "\<lparr>state = 13\<rparr>"]
      check_winner_result [of "\<lparr>state = 10897\<rparr>"] check_winner_result [of "\<lparr>state = 0\<rparr>"]
    by simp
qed

section \<open>The eight transforms form a group\<close>

lemma lt8_cases:
  "t < 8 \<Longrightarrow> t = 0 \<or> t = 1 \<or> t = 2 \<or> t = 3 \<or> t = 4 \<or> t = 5 \<or> t = 6 \<or> t = (7::nat)"
  by arith

lemma in_range8: "t \<in> set range8 \<longleftrightarrow> t < 8"
  unfolding range8_def by (auto dest: lt8_cases)

lemma in_range9: "a \<in> set range9 \<longleftrightarrow> 0 \<le> a \<and> a < 9"
  unfolding range9_def by auto

lemma add_cell: "(if c \<noteq> 0 then n + c * x else n) = n + c * (x::int)"
  by simp

lemma fold_add_sum: "fold (\<lambda>i acc. acc + f i) xs a = a + sum_list (map f xs)"
  for a :: int
  by (induction xs arbitrary: a) simp_all

lemma transform_state_sum:
  "transform_state s t
   = sum_list (map (\<lambda>i. digit s (nat i) * 3 ^ nat (transform_index i t)) range9)"
proof -
  have "transform_state s t
        = fold (\<lambda>i acc. acc + digit s (nat i) * 3 ^ nat (transform_index i t)) range9 0"
    unfolding transform_state_def Let_def digit_def add_cell ..
  then show ?thesis by (simp only: fold_add_sum add_0)
qed

lemma transform_index_eval:
  "transform_index a t = (case (TRANSFORMS ! t) (a div 3) (a mod 3) of (r, c) \<Rightarrow> r * 3 + c)"
  by (simp add: transform_index_def divmod_def)

lemma transform_state_pack_all:
  "\<forall>t\<in>set range8. transform_state s t = pack (map (digit s) (src_cells ! t))"
  unfolding range8_def transform_state_sum
  by (simp add: range9_def transform_index_eval TRANSFORMS_def src_cells_def)

lemma transform_state_pack:
  "t < 8 \<Longrightarrow> transform_state s t = pack (map (digit s) (src_cells ! t))"
  using transform_state_pack_all in_range8 by blast

lemma digit_pack_0: "0 \<le> d \<Longrightarrow> d < 3 \<Longrightarrow> digit (d + 3 * x) 0 = d"
  by (simp add: digit_def)

lemma digit_pack_Suc: "0 \<le> d \<Longrightarrow> d < 3 \<Longrightarrow> digit (d + 3 * x) (Suc j) = digit x j"
proof -
  assume d: "0 \<le> d" "d < 3"
  have "(d + 3 * x) div (3 * 3 ^ j) = ((d + 3 * x) div 3) div 3 ^ j"
    by (rule zdiv_zmult2_eq) simp
  moreover have "(d + 3 * x) div 3 = x" using d by simp
  ultimately show ?thesis by (simp add: digit_def)
qed

lemma digit_pack:
  "\<forall>d\<in>set ds. 0 \<le> d \<and> d < 3 \<Longrightarrow> digit (pack ds) j = (if j < length ds then ds ! j else 0)"
proof (induction ds arbitrary: j)
  case Nil
  then show ?case by (simp add: digit_def)
next
  case (Cons d ds)
  then show ?case by (cases j) (simp_all add: digit_pack_0 digit_pack_Suc)
qed

lemma src_cells_length: "t < 8 \<Longrightarrow> length (src_cells ! t) = 9"
  by (auto dest!: lt8_cases simp: src_cells_def)

lemma digit_transform_state:
  assumes "t < 8"
  shows "digit (transform_state s t) j = (if j < 9 then digit s (src_cells ! t ! j) else 0)"
proof -
  have "\<forall>d\<in>set (map (digit s) (src_cells ! t)). 0 \<le> d \<and> d < 3"
    using digit_range by auto
  from digit_pack [OF this, of j] show ?thesis
    using assms by (simp add: transform_state_pack src_cells_length)
qed

lemma src_cells_compose_all:
  "\<forall>t1\<in>set range8. \<forall>t2\<in>set range8.
     map (\<lambda>j. src_cells ! t1 ! j) (src_cells ! t2) = src_cells ! (compose t1 t2)"
  unfolding range8_def by (simp add: src_cells_def compose_def compose_tbl_def)

lemma src_cells_bound_all: "\<forall>t\<in>set range8. \<forall>j\<in>set (src_cells ! t). j < 9"
  unfolding range8_def by (simp add: src_cells_def)

lemma compose_bound_all: "\<forall>t1\<in>set range8. \<forall>t2\<in>set range8. compose t1 t2 < 8"
  unfolding range8_def by (simp add: compose_def compose_tbl_def)

lemma compose_bound: "t1 < 8 \<Longrightarrow> t2 < 8 \<Longrightarrow> compose t1 t2 < 8"
  using compose_bound_all in_range8 by blast

lemma transform_state_compose:
  assumes "t1 < 8" "t2 < 8"
  shows "transform_state (transform_state s t1) t2 = transform_state s (compose t1 t2)"
proof -
  have b: "\<forall>j\<in>set (src_cells ! t2). j < 9"
    using src_cells_bound_all assms(2) in_range8 by blast
  have "map (digit (transform_state s t1)) (src_cells ! t2)
        = map (\<lambda>j. digit s (src_cells ! t1 ! j)) (src_cells ! t2)"
    using b by (simp add: digit_transform_state [OF assms(1)])
  also have "\<dots> = map (digit s) (map (\<lambda>j. src_cells ! t1 ! j) (src_cells ! t2))"
    by simp
  also have "\<dots> = map (digit s) (src_cells ! (compose t1 t2))"
    using src_cells_compose_all assms in_range8 by simp
  finally show ?thesis
    using assms by (simp add: transform_state_pack compose_bound)
qed

lemma transform_index_compose_all:
  "\<forall>t1\<in>set range8. \<forall>t2\<in>set range8. \<forall>a\<in>set range9.
     transform_index (transform_index a t1) t2 = transform_index a (compose t1 t2)"
  unfolding range8_def range9_def
  by (simp add: transform_index_eval TRANSFORMS_def compose_def compose_tbl_def)

lemma transform_index_compose:
  "t1 < 8 \<Longrightarrow> t2 < 8 \<Longrightarrow> 0 \<le> a \<Longrightarrow> a < 9
   \<Longrightarrow> transform_index (transform_index a t1) t2 = transform_index a (compose t1 t2)"
  using transform_index_compose_all in_range8 in_range9 by blast

lemma compose_surj_all: "\<forall>t\<in>set range8. set (map (compose t) range8) = set range8"
  unfolding range8_def by (simp add: compose_def compose_tbl_def insert_commute)

lemma compose_surj: "t < 8 \<Longrightarrow> compose t ` set range8 = set range8"
  using compose_surj_all in_range8 by (metis set_map)

section \<open>The canonical key\<close>

lemma Min_insert_min:
  "finite S \<Longrightarrow> Min (insert (min x y) S) = Min (insert y (insert x S))"
  for x :: "'a::linorder"
  by (cases "S = {}") (simp_all add: min.commute min.assoc min.left_commute)

lemma fold_best_key:
  "fold (\<lambda>t best_key. case best_key of None \<Rightarrow> Some (k t)
                       | Some bk \<Rightarrow> if k t < bk then Some (k t) else best_key) ts (Some b)
   = Some (Min (insert b (k ` set ts)))"
  for k :: "nat \<Rightarrow> 'a::linorder"
proof (induction ts arbitrary: b)
  case Nil
  show ?case by simp
next
  case (Cons t ts)
  have e: "(if k t < b then Some (k t) else Some b) = Some (min (k t) b)"
    by (simp add: min_def not_less) (metis le_less not_less)
  have "Min (insert (min (k t) b) (k ` set ts)) = Min (insert b (insert (k t) (k ` set ts)))"
    by (rule Min_insert_min) simp
  then show ?case
    using Cons.IH [of "min (k t) b"] by (simp add: e)
qed

lemma fold_best_key_None:
  "ts \<noteq> [] \<Longrightarrow>
   fold (\<lambda>t best_key. case best_key of None \<Rightarrow> Some (k t)
                       | Some bk \<Rightarrow> if k t < bk then Some (k t) else best_key) ts None
   = Some (Min (k ` set ts))"
  for k :: "nat \<Rightarrow> 'a::linorder"
  by (cases ts) (simp_all add: fold_best_key)

lemma canonicalize_Min:
  "canonicalize_state_action s a = Some (Min (set (images s a)))"
proof -
  have "range8 \<noteq> []" by (simp add: range8_def)
  from fold_best_key_None [OF this, of "\<lambda>t. (transform_state s t, transform_index a t)"]
  show ?thesis
    unfolding canonicalize_state_action_def Let_def images_def by simp
qed

lemma images_image:
  assumes "t < 8" "0 \<le> a" "a < 9"
  shows "set (images (transform_state s t) (transform_index a t)) = set (images s a)"
proof -
  have "set (images (transform_state s t) (transform_index a t))
        = (\<lambda>t'. (transform_state (transform_state s t) t', transform_index (transform_index a t) t'))
            ` set range8"
    by (simp add: images_def)
  also have "\<dots> = (\<lambda>t'. (transform_state s (compose t t'), transform_index a (compose t t')))
            ` set range8"
    using assms by (intro image_cong refl)
      (simp add: in_range8 transform_state_compose transform_index_compose)
  also have "\<dots> = (\<lambda>u. (transform_state s u, transform_index a u)) ` (compose t ` set range8)"
    by (simp add: image_image)
  also have "\<dots> = set (images s a)"
    using assms(1) by (simp add: compose_surj images_def)
  finally show ?thesis .
qed

lemma canonicalize_image:
  "t < 8 \<Longrightarrow> 0 \<le> a \<Longrightarrow> a < 9
   \<Longrightarrow> canonicalize_state_action (transform_state s t) (transform_index a t)
       = canonicalize_state_action s a"
  by (simp add: canonicalize_Min images_image)

lemma canonicalize_is_image:
  "\<exists>t<8. canonicalize_state_action s a = Some (transform_state s t, transform_index a t)"
proof -
  have "Min (set (images s a)) \<in> set (images s a)"
    by (rule Min_in) (simp_all add: images_def range8_def)
  then show ?thesis
    unfolding canonicalize_Min by (auto simp: images_def in_range8)
qed

text \<open>
  C1. For every state \<open>s\<close>, every action \<open>a\<close> in 0..8 and every two transforms
  \<open>t1\<close>, \<open>t2\<close> of the eight, the canonical key of the \<open>t1\<close>-image of \<open>(s, a)\<close> is the
  canonical key of its \<open>t2\<close>-image, and both are the canonical key of \<open>(s, a)\<close>: all
  pairs related by a symmetry share one key.
\<close>

theorem canonicalize_symmetry_invariant:
  assumes "t1 < 8" and "t2 < 8" and "0 \<le> a" and "a < 9"
  shows "canonicalize_state_action (transform_state s t1) (transform_index a t1)
         = canonicalize_state_action (transform_state s t2) (transform_index a t2)
       \<and> canonicalize_state_action (transform_state s t1) (transform_index a t1)
         = canonicalize_state_action s a"
  using assms by (simp add: canonicalize_image)

theorem canonicalize_symmetry_invariant_witness:
  "canonicalize_state_action (transform_state 715 3) (transform_index 8 3)
   = canonicalize_state_action (transform_state 715 6) (transform_index 8 6)
   \<and> canonicalize_state_action (transform_state 715 3) (transform_index 8 3)
     = canonicalize_state_action 715 8"
proof -
  have "(3::nat) < 8" and "(6::nat) < 8" and "(0::int) \<le> 8" and "(8::int) < 9"
    by simp_all
  from canonicalize_symmetry_invariant [OF this, of 715] show ?thesis .
qed

text \<open>
  C9. \<open>canonicalize_state_action\<close> is idempotent: for every state \<open>s\<close> and action \<open>a\<close>
  in 0..8 its output \<open>(S, A)\<close> is its own canonical key, and the canonical key of
  every symmetric image of \<open>(s, a)\<close> is that same \<open>(S, A)\<close>, so canonicalising it again
  returns it.
\<close>

theorem canonicalize_idempotent:
  assumes "0 \<le> a" and "a < 9" and "t < 8"
  shows "\<exists>S A. canonicalize_state_action s a = Some (S, A)
             \<and> canonicalize_state_action S A = Some (S, A)
             \<and> canonicalize_state_action (transform_state s t) (transform_index a t) = Some (S, A)"
proof -
  obtain u where u: "u < 8"
    and k: "canonicalize_state_action s a = Some (transform_state s u, transform_index a u)"
    using canonicalize_is_image by blast
  have "canonicalize_state_action (transform_state s u) (transform_index a u)
        = Some (transform_state s u, transform_index a u)"
    using canonicalize_image [OF u assms(1,2), of s] k by simp
  moreover have "canonicalize_state_action (transform_state s t) (transform_index a t)
        = Some (transform_state s u, transform_index a u)"
    using canonicalize_image [OF assms(3,1,2), of s] k by simp
  ultimately show ?thesis using k by blast
qed

theorem canonicalize_idempotent_witness:
  "\<exists>S A. canonicalize_state_action 715 8 = Some (S, A)
         \<and> canonicalize_state_action S A = Some (S, A)
         \<and> canonicalize_state_action (transform_state 715 3) (transform_index 8 3) = Some (S, A)"
proof -
  have "(0::int) \<le> 8" and "(8::int) < 9" and "(3::nat) < 8"
    by simp_all
  from canonicalize_idempotent [OF this, of 715] show ?thesis .
qed

lemma sum_list_src_cells_all:
  "\<forall>t\<in>set range8. sum_list (map f (src_cells ! t)) = sum_list (map f cells9)"
  for f :: "nat \<Rightarrow> nat"
  unfolding range8_def by (simp add: src_cells_def cells9_def)

lemma length_filter_sum:
  "length (filter P xs) = sum_list (map (\<lambda>x. if P x then 1 else 0) xs)"
  by (induction xs) simp_all

lemma src_cells_nth_all: "\<forall>t\<in>set range8. map (\<lambda>j. src_cells ! t ! j) cells9 = src_cells ! t"
  unfolding range8_def by (simp add: src_cells_def cells9_def)

lemma filled_transform_state:
  assumes "t < 8"
  shows "filled (transform_state s t) = filled s"
proof -
  have "filter (\<lambda>j. digit (transform_state s t) j \<noteq> 0) cells9
        = filter (\<lambda>j. digit s (src_cells ! t ! j) \<noteq> 0) cells9"
    by (rule filter_cong) (auto simp: digit_transform_state [OF assms] cells9_def)
  then have "filled (transform_state s t)
        = length (filter (\<lambda>i. digit s i \<noteq> 0) (map (\<lambda>j. src_cells ! t ! j) cells9))"
    by (simp add: filled_def filter_map comp_def)
  also have "\<dots> = length (filter (\<lambda>i. digit s i \<noteq> 0) (src_cells ! t))"
    using src_cells_nth_all assms in_range8 by simp
  also have "\<dots> = filled s"
    unfolding filled_def length_filter_sum
    using sum_list_src_cells_all assms in_range8 by blast
  finally show ?thesis .
qed

section \<open>Greedy selection\<close>

lemma fold_max_key:
  "fold (\<lambda>y best. if f best < f y then y else best) xs x \<in> set (x # xs)
   \<and> (\<forall>y\<in>set (x # xs). f y \<le> f (fold (\<lambda>y best. if f best < f y then y else best) xs x))"
  for f :: "'a \<Rightarrow> 'k::linorder"
proof (induction xs arbitrary: x)
  case Nil
  show ?case by simp
next
  case (Cons z zs)
  show ?case
  proof (cases "f x < f z")
    case True
    with Cons [of z] show ?thesis by (auto intro: order_trans less_imp_le)
  next
    case False
    with Cons [of x] show ?thesis by (auto simp: not_less intro: order_trans)
  qed
qed

lemma py_max_key_Inr:
  assumes "xs \<noteq> []"
  shows "\<exists>x. py_max_key f xs = Inr x \<and> x \<in> set xs \<and> (\<forall>y\<in>set xs. f y \<le> f x)"
proof -
  obtain z zs where xs: "xs = z # zs" using assms by (cases xs) auto
  show ?thesis unfolding xs py_max_key.simps using fold_max_key [of f zs z] by blast
qed

lemma fold_min:
  "fold (\<lambda>y best. if y < best then y else best) xs x \<in> set (x # xs)
   \<and> (\<forall>y\<in>set (x # xs). fold (\<lambda>y best. if y < best then y else best) xs x \<le> y)"
  for x :: "'a::linorder"
proof (induction xs arbitrary: x)
  case Nil
  show ?case by simp
next
  case (Cons z zs)
  show ?case
  proof (cases "z < x")
    case True
    with Cons [of z] show ?thesis by (auto intro: order_trans less_imp_le)
  next
    case False
    with Cons [of x] show ?thesis by (auto simp: not_less intro: order_trans)
  qed
qed

lemma py_min_Inr:
  assumes "xs \<noteq> []"
  shows "\<exists>x. py_min xs = Inr x \<and> x \<in> set xs \<and> (\<forall>y\<in>set xs. x \<le> y)"
proof -
  obtain z zs where xs: "xs = z # zs" using assms by (cases xs) auto
  show ?thesis unfolding xs py_min.simps using fold_min [of zs z] by blast
qed

lemma q_avgs_of_map:
  "q_avgs_of true_div board q valid
   = map (\<lambda>m. (avg_reward true_div board q m, seen_count board q m, m)) valid"
  unfolding q_avgs_of_def avg_reward_def seen_count_def table_entry_def Let_def
  by (rule map_cong) (auto split: option.splits prod.splits)

lemma exploit_candidates:
  assumes "valid \<noteq> []"
  shows "\<exists>a c. (\<forall>m'\<in>set valid. avg_reward true_div board q m' \<le> a)
           \<and> (\<forall>m'\<in>set valid. avg_reward true_div board q m' = a \<longrightarrow> seen_count board q m' \<le> c)
           \<and> (\<exists>m1\<in>set valid. avg_reward true_div board q m1 = a \<and> seen_count board q m1 = c)
           \<and> exploit true_div board q valid gen epsilon g
               = (if gen = 3 \<and> epsilon = 0
                  then (case py_min (filter (\<lambda>m. seen_count board q m = c)
                                      (filter (\<lambda>m. avg_reward true_div board q m = a) valid)) of
                          Inl e \<Rightarrow> Inl e | Inr m \<Rightarrow> Inr (m, g))
                  else random_choice (filter (\<lambda>m. seen_count board q m = c)
                                       (filter (\<lambda>m. avg_reward true_div board q m = a) valid)) g)"
proof -
  let ?avg = "avg_reward true_div board q" and ?cnt = "seen_count board q"
  let ?qa = "map (\<lambda>m. (?avg m, ?cnt m, m)) valid"
  have "?qa \<noteq> []" using assms by simp
  from py_max_key_Inr [OF this, of "\<lambda>x. fst x"]
  obtain top where top: "py_max_key (\<lambda>x. fst x) ?qa = Inr top" "top \<in> set ?qa"
    "\<forall>y\<in>set ?qa. fst y \<le> fst top" by blast
  from top(2) obtain m0 where m0: "m0 \<in> set valid" "fst top = ?avg m0" by auto
  have mx: "\<forall>m'\<in>set valid. ?avg m' \<le> fst top" using top(3) by auto
  let ?bm = "map (\<lambda>m. (?cnt m, m)) (filter (\<lambda>m. ?avg m = fst top) valid)"
  have bm: "map (\<lambda>(avg, count, m). (count, m)) (filter (\<lambda>(avg, count, m). avg = fst top) ?qa) = ?bm"
    by (simp add: filter_map comp_def)
  have "?bm \<noteq> []" using m0 by (auto simp: filter_empty_conv)
  from py_max_key_Inr [OF this, of "\<lambda>x. fst x"]
  obtain tc where tc: "py_max_key (\<lambda>x. fst x) ?bm = Inr tc" "tc \<in> set ?bm"
    "\<forall>y\<in>set ?bm. fst y \<le> fst tc" by blast
  from tc(2) obtain m1 where m1: "m1 \<in> set valid" "?avg m1 = fst top" "?cnt m1 = fst tc" by auto
  have mc: "\<forall>m'\<in>set valid. ?avg m' = fst top \<longrightarrow> ?cnt m' \<le> fst tc" using tc(3) by auto
  let ?b2 = "filter (\<lambda>m. ?cnt m = fst tc) (filter (\<lambda>m. ?avg m = fst top) valid)"
  have b2: "map (\<lambda>(count, m). m) (filter (\<lambda>(count, m). count = fst tc) ?bm) = ?b2"
    by (simp add: filter_map comp_def)
  have ex: "exploit true_div board q valid gen epsilon g
            = (if gen = 3 \<and> epsilon = 0
               then (case py_min ?b2 of Inl e \<Rightarrow> Inl e | Inr m \<Rightarrow> Inr (m, g))
               else random_choice ?b2 g)"
    unfolding exploit_def q_avgs_of_map Let_def
    by (simp only: top(1) sum.case bm tc(1) b2)
  show ?thesis
    using mx mc m1 ex by blast
qed







lemma get_valid_moves_range:
  "m \<in> set (get_valid_moves b) \<Longrightarrow> 0 \<le> m \<and> m < 9 \<and> get_cell b (m div 3) (m mod 3) = 0"
  unfolding get_valid_moves_filter by (simp add: is_valid_move_def in_range9)



section \<open>Move selection returns a legal move\<close>

lemma random_choice_Inr:
  "xs \<noteq> [] \<Longrightarrow> \<exists>x. random_choice xs g = Inr (x, rng_next g) \<and> x \<in> set xs"
proof -
  assume ne: "xs \<noteq> []"
  then have "0 < int (length xs)" by simp
  then have "0 \<le> g 0 mod int (length xs)" and "g 0 mod int (length xs) < int (length xs)"
    by simp_all
  then have "nat (g 0 mod int (length xs)) < length xs" by linarith
  with ne show ?thesis by (simp add: random_choice_def)
qed

lemma exploit_Inr:
  assumes "valid \<noteq> []"
  shows "\<exists>m g'. exploit true_div board q valid gen epsilon g = Inr (m, g') \<and> m \<in> set valid"
proof -
  from exploit_candidates [OF assms, of true_div board q gen epsilon g]
  obtain a c m1 where m1: "m1 \<in> set valid" "avg_reward true_div board q m1 = a"
      "seen_count board q m1 = c"
    and ex: "exploit true_div board q valid gen epsilon g
               = (if gen = 3 \<and> epsilon = 0
                  then (case py_min (filter (\<lambda>m. seen_count board q m = c)
                                      (filter (\<lambda>m. avg_reward true_div board q m = a) valid)) of
                          Inl e \<Rightarrow> Inl e | Inr m \<Rightarrow> Inr (m, g))
                  else random_choice (filter (\<lambda>m. seen_count board q m = c)
                                       (filter (\<lambda>m. avg_reward true_div board q m = a) valid)) g)"
    by blast
  let ?b2 = "filter (\<lambda>m. seen_count board q m = c)
               (filter (\<lambda>m. avg_reward true_div board q m = a) valid)"
  have ne: "?b2 \<noteq> []" using m1 by (auto simp: filter_empty_conv)
  show ?thesis
  proof (cases "gen = 3 \<and> epsilon = 0")
    case True
    from py_min_Inr [OF ne] obtain m where "py_min ?b2 = Inr m" "m \<in> set ?b2" by blast
    with True ex show ?thesis by auto
  next
    case False
    from random_choice_Inr [OF ne, of g] obtain m where
      "random_choice ?b2 g = Inr (m, rng_next g)" "m \<in> set ?b2" by blast
    with False ex show ?thesis by auto
  qed
qed

lemma get_and_save_move_Inr:
  assumes "get_valid_moves board \<noteq> []"
  shows "\<exists>move g'. get_and_save_move true_div self board gen q_vals epsilon g
                    = Inr (move,
                           self\<lparr>moves := moves self @ [canonicalize_state_action (state board) move]\<rparr>,
                           g')
                 \<and> move \<in> set (get_valid_moves board)"
proof -
  let ?valid = "get_valid_moves board"
  let ?chosen = "case (if gen = 1 then None else q_vals) of
               None \<Rightarrow> random_choice ?valid g
             | Some q \<Rightarrow>
                 (case random_random g of (u, g1) \<Rightarrow>
                    if u < epsilon then random_choice ?valid g1
                    else exploit true_div board q ?valid gen epsilon g1)"
  have "\<exists>move g'. ?chosen = Inr (move, g') \<and> move \<in> set ?valid"
  proof (cases "if gen = 1 then None else q_vals")
    case None
    then show ?thesis using random_choice_Inr [OF assms, of g] by auto
  next
    case (Some q)
    obtain u g1 where r: "random_random g = (u, g1)" by (cases "random_random g")
    show ?thesis
    proof (cases "u < epsilon")
      case True
      then show ?thesis using Some r random_choice_Inr [OF assms, of g1] by auto
    next
      case False
      then show ?thesis
        using Some r exploit_Inr [OF assms, of true_div board q gen epsilon g1] by auto
    qed
  qed
  then obtain move g' where "?chosen = Inr (move, g')" "move \<in> set ?valid" by blast
  then show ?thesis unfolding get_and_save_move_def Let_def by auto
qed

section \<open>Empty cells and plies\<close>

lemma range9_cells9: "range9 = map int cells9"
  by (simp add: range9_def cells9_def)

lemma get_valid_moves_digits:
  "get_valid_moves b = map int (filter (\<lambda>i. digit (state b) i = 0) cells9)"
proof -
  have "filter (\<lambda>i. is_valid_move b (i div 3) (i mod 3)) (map int cells9)
        = map int (filter (\<lambda>i. digit (state b) i = 0) cells9)"
    unfolding filter_map comp_def
    by (rule arg_cong [where f = "map int"], rule filter_cong)
       (auto simp: cells9_def is_valid_move_def get_cell_digit)
  then show ?thesis by (simp add: get_valid_moves_filter range9_cells9)
qed

lemma valid_plus_filled: "length (get_valid_moves b) + filled (state b) = 9"
proof -
  have "length (filter (\<lambda>i. digit (state b) i = 0) cells9)
        + length (filter (\<lambda>i. \<not> digit (state b) i = 0) cells9) = length cells9"
    by (rule sum_length_filter_compl)
  then show ?thesis by (simp add: get_valid_moves_digits filled_def cells9_def)
qed

lemma filled_le_9: "filled s \<le> 9"
  unfolding filled_def using length_filter_le [of _ cells9] by (simp add: cells9_def)

lemma length_filter_all:
  "length (filter P xs) = length xs \<longleftrightarrow> (\<forall>x\<in>set xs. P x)"
proof (induction xs)
  case Nil
  show ?case by simp
next
  case (Cons x xs)
  have le: "length (filter P xs) \<le> length xs" by (rule length_filter_le)
  show ?case
  proof (cases "P x")
    case True
    with Cons show ?thesis by simp
  next
    case False
    from le have "length (filter P xs) \<noteq> Suc (length xs)" by linarith
    with False show ?thesis by simp
  qed
qed

lemma board_full_digits: "board_full b \<longleftrightarrow> (\<forall>i\<in>set cells9. digit (state b) i \<noteq> 0)"
  by (simp add: board_full_def range3_def cells9_def get_cell_digit)

lemma board_full_filled: "board_full b \<longleftrightarrow> filled (state b) = 9"
proof -
  have "filled (state b) = length cells9 \<longleftrightarrow> (\<forall>i\<in>set cells9. digit (state b) i \<noteq> 0)"
    unfolding filled_def by (rule length_filter_all)
  moreover have "length cells9 = 9" by (simp add: cells9_def)
  ultimately show ?thesis by (simp only: board_full_digits)
qed

lemma in_progress_has_moves:
  assumes "check_winner b = 0"
  shows "get_valid_moves b \<noteq> []" and "filled (state b) < 9"
proof -
  from assms have "\<not> board_full b" by (simp add: check_winner_in_progress)
  then have "filled (state b) \<noteq> 9" by (simp add: board_full_filled)
  with filled_le_9 [of "state b"] show "filled (state b) < 9" by simp
  with valid_plus_filled [of b] show "get_valid_moves b \<noteq> []" by auto
qed

lemma length_filter_one_more:
  "distinct xs \<Longrightarrow> i \<in> set xs \<Longrightarrow> \<not> P i
   \<Longrightarrow> length (filter (\<lambda>j. j = i \<or> P j) xs) = Suc (length (filter P xs))"
proof (induction xs)
  case Nil
  then show ?case by simp
next
  case (Cons x xs)
  show ?case
  proof (cases "x = i")
    case True
    with Cons.prems have "i \<notin> set xs" by simp
    then have "filter (\<lambda>j. j = i \<or> P j) xs = filter P xs"
      by (intro filter_cong refl) auto
    with True Cons.prems show ?thesis by simp
  next
    case False
    with Cons show ?thesis by auto
  qed
qed

lemma in_cells9: "i \<in> set cells9 \<longleftrightarrow> i < 9"
proof
  assume "i \<in> set cells9"
  then show "i < 9" by (auto simp: cells9_def)
next
  assume "i < 9"
  then have "i = 0 \<or> i = 1 \<or> i = 2 \<or> i = 3 \<or> i = 4 \<or> i = 5 \<or> i = 6 \<or> i = 7 \<or> i = 8"
    by arith
  then show "i \<in> set cells9" by (auto simp: cells9_def)
qed

lemma filled_after_move:
  assumes "move \<in> set (get_valid_moves b)" and "p = 1 \<or> p = 2"
  shows "filled (state (snd (make_move_cpu b p move))) = Suc (filled (state b))"
proof -
  from get_valid_moves_range [OF assms(1)]
  have mv: "0 \<le> move" "move < 9" "get_cell b (move div 3) (move mod 3) = 0" by auto
  then have d0: "digit (state b) (nat move) = 0" using empty_cell_digit [of move b] by simp
  from assms(2) have p: "0 \<le> p" "p < 3" "p \<noteq> 0" by auto
  have s: "state (snd (make_move_cpu b p move)) = state b + p * 3 ^ nat move"
    using mv by (simp add: make_move_cpu_legal)
  have in9: "nat move \<in> set cells9" using mv by (simp add: in_cells9)
  have "filter (\<lambda>j. digit (state b + p * 3 ^ nat move) j \<noteq> 0) cells9
        = filter (\<lambda>j. j = nat move \<or> digit (state b) j \<noteq> 0) cells9"
    by (rule filter_cong) (auto simp: digit_add [OF d0 p(1,2)] p(3))
  moreover have "length (filter (\<lambda>j. j = nat move \<or> digit (state b) j \<noteq> 0) cells9)
        = Suc (length (filter (\<lambda>j. digit (state b) j \<noteq> 0) cells9))"
    by (rule length_filter_one_more) (use in9 d0 in \<open>simp_all add: cells9_def\<close>)
  ultimately show ?thesis by (simp add: filled_def s)
qed

lemma key_filled_canonical:
  "key_filled (canonicalize_state_action s a) = filled s"
proof -
  obtain t where "t < 8"
    "canonicalize_state_action s a = Some (transform_state s t, transform_index a t)"
    using canonicalize_is_image by blast
  then show ?thesis by (simp add: key_filled_def filled_transform_state)
qed

section \<open>The game loop\<close>

lemma game_inv_step:
  assumes inv: "game_inv cpu1 cpu2 h board"
    and who: "(cur = cpu1 \<and> oth = cpu2) \<or> (cur = cpu2 \<and> oth = cpu1)"
    and f: "filled (state board') = Suc (filled (state board))"
  shows "game_inv cpu1 cpu2
           (h(cur := (h cur)\<lparr>moves := moves (h cur) @ [canonicalize_state_action (state board) a]\<rparr>))
           board'"
proof -
  let ?k = "canonicalize_state_action (state board) a"
  have kf: "key_filled ?k = filled (state board)" by (rule key_filled_canonical)
  show ?thesis
  proof (cases "cpu1 = cpu2")
    case True
    then show ?thesis by (simp add: game_inv_def)
  next
    case False
    with inv have i: "\<forall>k\<in>set (moves (h cpu1) @ moves (h cpu2)). key_filled k < filled (state board)"
      "distinct (map key_filled (moves (h cpu1) @ moves (h cpu2)))"
      "length (moves (h cpu1) @ moves (h cpu2)) = filled (state board)"
      by (simp_all add: game_inv_def)
    from i(1) have fresh: "filled (state board) \<notin> key_filled ` set (moves (h cpu1) @ moves (h cpu2))"
      by auto
    from who show ?thesis
    proof
      assume "cur = cpu1 \<and> oth = cpu2"
      with False i fresh show ?thesis
        by (auto simp: game_inv_def f kf less_Suc_eq)
    next
      assume "cur = cpu2 \<and> oth = cpu1"
      with False i fresh show ?thesis
        by (auto simp: game_inv_def f kf less_Suc_eq)
    qed
  qed
qed

lemma game_loop_total:
  assumes "check_winner board = 0"
    and "marker (h cur) = 1 \<or> marker (h cur) = 2"
    and "marker (h oth) = 1 \<or> marker (h oth) = 2"
    and "(cur = cpu1 \<and> oth = cpu2) \<or> (cur = cpu2 \<and> oth = cpu1)"
    and "game_inv cpu1 cpu2 h board"
  shows "\<exists>hf bf gf.
           game_loop true_div cpu1 cpu2 q st gen epsilon learn h board cur oth g
             = Some (terminal cpu1 cpu2 learn hf q st bf (check_winner bf) gf)
           \<and> check_winner bf \<noteq> 0 \<and> game_inv cpu1 cpu2 hf bf
           \<and> (\<forall>a. marker (hf a) = marker (h a))"
  using assms
proof (induction "9 - filled (state board)" arbitrary: h board cur oth g rule: less_induct)
  case less
  note ip = in_progress_has_moves [OF less.prems(1)]
  from get_and_save_move_Inr [OF ip(1), of true_div "h cur" gen "Some q" epsilon g]
  obtain move g' where
    gm: "get_and_save_move true_div (h cur) board gen (Some q) epsilon g
         = Inr (move,
                (h cur)\<lparr>moves := moves (h cur) @ [canonicalize_state_action (state board) move]\<rparr>,
                g')"
    and mv: "move \<in> set (get_valid_moves board)" by blast
  define self' where
    "self' = (h cur)\<lparr>moves := moves (h cur) @ [canonicalize_state_action (state board) move]\<rparr>"
  define h' where "h' = h(cur := self')"
  define board' where "board' = snd (make_move_cpu board (marker (h' cur)) move)"
  have mk: "\<forall>a. marker (h' a) = marker (h a)" by (simp add: h'_def self'_def)
  have fl: "filled (state board') = Suc (filled (state board))"
    unfolding board'_def using mv less.prems(2) mk by (simp add: filled_after_move)
  have inv': "game_inv cpu1 cpu2 h' board'"
    unfolding h'_def self'_def by (rule game_inv_step [OF less.prems(5,4) fl])
  have unf: "game_loop true_div cpu1 cpu2 q st gen epsilon learn h board cur oth g
             = (if check_winner board' \<noteq> 0
                then Some (terminal cpu1 cpu2 learn h' q st board' (check_winner board') g')
                else game_loop true_div cpu1 cpu2 q st gen epsilon learn h' board' oth cur g')"
    by (subst game_loop.simps) (simp add: gm Let_def h'_def self'_def board'_def)
  show ?case
  proof (cases "check_winner board' = 0")
    case False
    with unf inv' mk show ?thesis by auto
  next
    case True
    have m: "9 - filled (state board') < 9 - filled (state board)"
      using fl ip(2) by simp
    have "\<exists>hf bf gf.
           game_loop true_div cpu1 cpu2 q st gen epsilon learn h' board' oth cur g'
             = Some (terminal cpu1 cpu2 learn hf q st bf (check_winner bf) gf)
           \<and> check_winner bf \<noteq> 0 \<and> game_inv cpu1 cpu2 hf bf
           \<and> (\<forall>a. marker (hf a) = marker (h' a))"
      using less.prems(2,3,4) mk by (intro less.hyps [OF m True _ _ _ inv']) auto
    with unf True mk show ?thesis by auto
  qed
qed

lemma check_winner_init: "check_winner Board_init = 0"
  by (simp add: Board_init_def check_winner_def board_lines_def range3_def get_cell_eval)

lemma filled_init: "filled (state Board_init) = 0"
  by (simp add: Board_init_def filled_def digit_def cells9_def)

lemma simulate_game_total:
  assumes "markers_ok h cpu1 cpu2"
  shows "\<exists>hf bf gf.
           simulate_game true_div h cpu1 cpu2 q st gen epsilon learn g
             = Some (terminal cpu1 cpu2 learn hf q st bf (check_winner bf) gf)
           \<and> check_winner bf \<noteq> 0 \<and> game_inv cpu1 cpu2 hf bf
           \<and> (\<forall>a. marker (hf a) = marker (h a))"
proof -
  define h1 where "h1 = h(cpu1 := (h cpu1)\<lparr>moves := []\<rparr>)"
  define h2 where "h2 = h1(cpu2 := (h1 cpu2)\<lparr>moves := []\<rparr>)"
  have mk: "\<forall>a. marker (h2 a) = marker (h a)" by (simp add: h1_def h2_def)
  have m0: "moves (h2 cpu1) = []" "moves (h2 cpu2) = []" by (simp_all add: h1_def h2_def)
  have inv: "game_inv cpu1 cpu2 h2 Board_init"
    by (simp add: game_inv_def m0 filled_init)
  have "\<exists>hf bf gf.
           game_loop true_div cpu1 cpu2 q st gen epsilon learn h2 Board_init cpu1 cpu2 g
             = Some (terminal cpu1 cpu2 learn hf q st bf (check_winner bf) gf)
           \<and> check_winner bf \<noteq> 0 \<and> game_inv cpu1 cpu2 hf bf
           \<and> (\<forall>a. marker (hf a) = marker (h2 a))"
    using assms mk by (intro game_loop_total [OF check_winner_init _ _ _ inv])
      (auto simp: markers_ok_def)
  then show ?thesis
    unfolding simulate_game_def Let_def h1_def [symmetric] h2_def [symmetric] using mk by simp
qed

lemma game_loop_partial:
  assumes "game_loop true_div cpu1 cpu2 q st gen epsilon learn h board cur oth g = Some r"
  shows "(\<exists>e. r = Inl e) \<or> (\<exists>hf bf res gf. r = terminal cpu1 cpu2 learn hf q st bf res gf)"
proof (rule game_loop.raw_induct
    [where P = "\<lambda>td c1 c2 q st gen eps learn h board cur oth g r.
                  (\<exists>e. r = Inl e) \<or> (\<exists>hf bf res gf. r = terminal c1 c2 learn hf q st bf res gf)",
     OF _ assms], goal_cases)
  case (1 f true_div cpu1 cpu2 q st gen epsilon learn h board cur oth g r)
  show ?case
  proof (cases "get_and_save_move true_div (h cur) board gen (Some q) epsilon g")
    case (Inl e)
    with 1(2) show ?thesis by auto
  next
    case (Inr res)
    obtain move self' g' where res: "res = (move, self', g')" by (cases res)
    define h' where "h' = h(cur := self')"
    define board' where "board' = snd (make_move_cpu board (marker (h' cur)) move)"
    show ?thesis
    proof (cases "check_winner board' = 0")
      case True
      with 1(2) Inr res have "f true_div cpu1 cpu2 q st gen epsilon learn h' board' oth cur g' = Some r"
        by (simp add: Let_def h'_def board'_def)
      then show ?thesis by (rule 1(1))
    next
      case False
      with 1(2) Inr res have "r = terminal cpu1 cpu2 learn h' q st board' (check_winner board') g'"
        by (simp add: Let_def h'_def board'_def)
      then show ?thesis by blast
    qed
  qed
qed

lemma credit_Nil: "credit r [] q = q"
  by (simp add: credit_def)

lemma credit_Cons:
  "credit r (k # ks) q
   = credit r ks (q(k \<mapsto> (fst (entry q k) + r, snd (entry q k) + 1)))"
  by (simp add: credit_def entry_def split: option.splits prod.splits)



lemma table_inv_credit:
  "table_inv q \<Longrightarrow> r = - 1 \<or> r = 0 \<or> r = 1 \<Longrightarrow> table_inv (credit r ks q)"
proof (induction ks arbitrary: q)
  case Nil
  then show ?case by (simp add: credit_Nil)
next
  case (Cons k ks)
  have e: "0 \<le> snd (entry q k) \<and> - snd (entry q k) \<le> fst (entry q k)
           \<and> fst (entry q k) \<le> snd (entry q k)"
    using Cons.prems(1) unfolding table_inv_def entry_def by (cases "q k") auto
  have "table_inv (q(k \<mapsto> (fst (entry q k) + r, snd (entry q k) + 1)))"
    unfolding table_inv_def
  proof (intro allI impI)
    fix k' s c
    assume a: "(q(k \<mapsto> (fst (entry q k) + r, snd (entry q k) + 1))) k' = Some (s, c)"
    show "0 \<le> c \<and> - c \<le> s \<and> s \<le> c"
    proof (cases "k' = k")
      case True
      with a e Cons.prems(2) show ?thesis by auto
    next
      case False
      with a Cons.prems(1) show ?thesis by (simp add: table_inv_def)
    qed
  qed
  then show ?case unfolding credit_Cons by (rule Cons.IH [OF _ Cons.prems(2)])
qed

lemma terminal_Inr:
  "terminal cpu1 cpu2 learn hf q st bf res gf = Inr out
   \<Longrightarrow> out_heap out = hf \<and> out_board out = bf \<and> out_result out = res \<and> out_rng out = gf
       \<and> out_q_values out
           = (if learn
              then credit (- reward_of (marker (hf cpu1)) res) (moves (hf cpu2))
                     (credit (reward_of (marker (hf cpu1)) res) (moves (hf cpu1)) q)
              else q)"
  unfolding terminal_def reward_of_def Let_def
  by (auto split: if_splits sum.splits)

lemma terminal_stats_ok:
  "stats_ok st \<Longrightarrow> \<exists>out. terminal cpu1 cpu2 learn hf q st bf res gf = Inr out"
  unfolding terminal_def stats_ok_def stats_incr_def Let_def
  by (auto split: if_splits sum.splits option.splits)


lemma demo_markers: "markers_ok demo_heap 0 1"
  by (simp add: markers_ok_def demo_heap_def)

lemma demo_stats_ok: "stats_ok demo_stats"
  by (simp add: stats_ok_def demo_stats_def)

lemma simulate_game_partial:
  assumes "simulate_game true_div h cpu1 cpu2 q st gen epsilon learn g = Some (Inr out)"
  shows "\<exists>hf bf res gf. terminal cpu1 cpu2 learn hf q st bf res gf = Inr out"
proof -
  from assms game_loop_partial
  have "(\<exists>e. Inr out = Inl e)
        \<or> (\<exists>hf bf res gf. Inr out = terminal cpu1 cpu2 learn hf q st bf res gf)"
    unfolding simulate_game_def Let_def by blast
  then show ?thesis by (metis sum.distinct(1))
qed

lemma reward_of_values: "reward_of mk res = - 1 \<or> reward_of mk res = 0 \<or> reward_of mk res = 1"
  by (simp add: reward_of_def)

lemma table_inv_terminal:
  assumes "table_inv q" and "terminal cpu1 cpu2 learn hf q st bf res gf = Inr out"
  shows "table_inv (out_q_values out)"
proof -
  let ?r = "reward_of (marker (hf cpu1)) res"
  have r1: "?r = - 1 \<or> ?r = 0 \<or> ?r = 1" by (rule reward_of_values)
  then have r2: "- ?r = - 1 \<or> - ?r = 0 \<or> - ?r = 1" by auto
  have "table_inv (credit (- ?r) (moves (hf cpu2)) (credit ?r (moves (hf cpu1)) q))"
    by (intro table_inv_credit assms(1) r1 r2)
  with assms(1) terminal_Inr [OF assms(2)] show ?thesis by (simp split: if_splits)
qed





text \<open>
  C7. The table invariant (for every key, count \<ge> 0 and -count \<le> sum \<le> count) holds
  for the empty table and is preserved by every call of \<open>simulate_game\<close> that
  returns, whatever the mode, the exploration rate and the learning flag; with
  markers 1 or 2 and statistics holding both counters the call does return. (A call
  that raises has not touched the table: the only raise of the terminal step
  precedes the learning step.)
\<close>

theorem table_invariant_preserved:
  "table_inv Map.empty
   \<and> (table_inv q \<longrightarrow>
        (\<forall>out. simulate_game true_div h cpu1 cpu2 q st gen epsilon learn g = Some (Inr out)
               \<longrightarrow> table_inv (out_q_values out))
        \<and> (markers_ok h cpu1 cpu2 \<and> stats_ok st
             \<longrightarrow> (\<exists>out. simulate_game true_div h cpu1 cpu2 q st gen epsilon learn g
                          = Some (Inr out))))"
proof (intro conjI allI impI)
  show "table_inv Map.empty" by (simp add: table_inv_def)
next
  fix out
  assume q: "table_inv q"
    and "simulate_game true_div h cpu1 cpu2 q st gen epsilon learn g = Some (Inr out)"
  from simulate_game_partial [OF this(2)]
  obtain hf bf res gf where "terminal cpu1 cpu2 learn hf q st bf res gf = Inr out" by blast
  from table_inv_terminal [OF q this] show "table_inv (out_q_values out)" .
next
  assume a: "markers_ok h cpu1 cpu2 \<and> stats_ok st"
  from simulate_game_total [of h cpu1 cpu2 true_div q st gen epsilon learn g] a
  obtain hf bf gf where
    s: "simulate_game true_div h cpu1 cpu2 q st gen epsilon learn g
        = Some (terminal cpu1 cpu2 learn hf q st bf (check_winner bf) gf)" by blast
  from a terminal_stats_ok [of st cpu1 cpu2 learn hf q bf "check_winner bf" gf]
  obtain out where "terminal cpu1 cpu2 learn hf q st bf (check_winner bf) gf = Inr out" by blast
  with s show "\<exists>out. simulate_game true_div h cpu1 cpu2 q st gen epsilon learn g = Some (Inr out)"
    by simp
qed

theorem table_invariant_preserved_witness:
  "\<exists>out. simulate_game rat_div demo_heap 0 1 [Some (0, 4) \<mapsto> (1, 2)] demo_stats 2 (1 / 10) True (\<lambda>n. n)
          = Some (Inr out)
        \<and> table_inv (out_q_values out)"
proof -
  have "table_inv [Some (0, 4) \<mapsto> (1, 2)]" by (simp add: table_inv_def)
  with table_invariant_preserved
          [of "[Some (0, 4) \<mapsto> (1, 2)]" rat_div demo_heap 0 1 demo_stats 2 "1 / 10" True "\<lambda>n. n"]
        demo_markers demo_stats_ok
  show ?thesis by blast
qed




end
